theory Spec2Isabelle
  imports Main "HOL-Library.Word" "HOL-Library.Sublist"
begin

section \<open>JavaScript values used by \<open>src/index.js\<close>\<close>

text \<open>
  A JavaScript string is a sequence of 16-bit code units. The source compares code units
  with ASCII characters only (\<open>"\<close>, \<open>,\<close>, \<open>-\<close>, the digits) and tests the
  whitespace and line-terminator classes of ECMAScript, which contain code units above
  255; so a string is a list of 16-bit words, and an ASCII literal is written
  \<open>js ''...''\<close>.
\<close>

type_synonym jschar = "16 word"
type_synonym jsstring = "jschar list"

definition js :: "string \<Rightarrow> jsstring" where
  "js s = map of_char s"

text \<open>
  \<open>\<bsol>d\<close> of a regular expression without the \<open>u\<close> flag: the ASCII digits.
\<close>

definition is_digit :: "jschar \<Rightarrow> bool" where
  "is_digit c \<longleftrightarrow> 48 \<le> c \<and> c \<le> 57"

text \<open>
  \<open>\<bsol>s\<close>, and the characters \<open>String.prototype.trim\<close> removes: ECMAScript's
  WhiteSpace (TAB, VT, FF, SP, NBSP, ZWNBSP and the Unicode space separators) and
  LineTerminator (LF, CR, LS, PS).
\<close>

definition is_space :: "jschar \<Rightarrow> bool" where
  "is_space c \<longleftrightarrow>
     (9 \<le> c \<and> c \<le> 13) \<or> c = 32 \<or> c = 160 \<or> c = 5760 \<or>
     (8192 \<le> c \<and> c \<le> 8202) \<or> c = 8232 \<or> c = 8233 \<or> c = 8239 \<or>
     c = 8287 \<or> c = 12288 \<or> c = 65279"

text \<open>\<open>.\<close> without the \<open>s\<close> flag: every code unit but the four line terminators.\<close>

definition is_dot :: "jschar \<Rightarrow> bool" where
  "is_dot c \<longleftrightarrow> c \<noteq> 10 \<and> c \<noteq> 13 \<and> c \<noteq> 8232 \<and> c \<noteq> 8233"

subsection \<open>Ordinary objects with string keys\<close>

text \<open>
  \<open>parents = {}\<close> and \<open>row = {}\<close> are ordinary objects: their prototype is
  \<open>Object.prototype\<close>. A property read that finds no own property continues there, and
  every property of \<open>Object.prototype\<close> holds a function or (for \<open>__proto__\<close>) the
  prototype object itself, all of them truthy. An assignment to \<open>__proto__\<close> of a
  primitive value (a string, \<open>true\<close>) runs the inherited setter, which ignores it and
  creates no own property; an assignment to any other key creates or overwrites the own
  property.
\<close>

definition object_prototype_keys :: "jsstring list" where
  "object_prototype_keys =
     [js ''constructor'', js ''__defineGetter__'', js ''__defineSetter__'',
      js ''hasOwnProperty'', js ''__lookupGetter__'', js ''__lookupSetter__'',
      js ''isPrototypeOf'', js ''propertyIsEnumerable'', js ''toString'',
      js ''valueOf'', js ''__proto__'', js ''toLocaleString'']"

text \<open>
  A row is the object the line parser builds: its own properties, all holding strings.
\<close>

type_synonym row = "jsstring \<rightharpoonup> jsstring"

text \<open>\<open>row[header] = value\<close> with a string value.\<close>

definition row_set :: "row \<Rightarrow> jsstring \<Rightarrow> jsstring \<Rightarrow> row" where
  "row_set r k v = (if k = js ''__proto__'' then r else r(k \<mapsto> v))"

text \<open>
  \<open>proc.PPID\<close> and \<open>proc.PID\<close>, as the property key they are then used as: the
  string itself, and \<open>"undefined"\<close> when the row has no such property
  (\<open>Object.prototype\<close> has neither).
\<close>

definition prop_key :: "row \<Rightarrow> jsstring \<Rightarrow> jsstring" where
  "prop_key r k = (case r k of Some v \<Rightarrow> v | None \<Rightarrow> js ''undefined'')"

definition PPID_of :: "row \<Rightarrow> jsstring" where
  "PPID_of proc = prop_key proc (js ''PPID'')"

definition PID_of :: "row \<Rightarrow> jsstring" where
  "PID_of proc = prop_key proc (js ''PID'')"

text \<open>
  The object \<open>parents\<close> is the set of its own keys: the only value ever stored is
  \<open>true\<close>. \<open>parents[k] = true\<close> is \<open>set_true\<close>, and the test \<open>if (parents[k])\<close>
  is \<open>truthy_at\<close>.
\<close>

definition set_true :: "jsstring set \<Rightarrow> jsstring \<Rightarrow> jsstring set" where
  "set_true own k = (if k = js ''__proto__'' then own else insert k own)"

definition truthy_at :: "jsstring set \<Rightarrow> jsstring \<Rightarrow> bool" where
  "truthy_at own k \<longleftrightarrow> k \<in> own \<or> k \<in> set object_prototype_keys"

section \<open>Tree builder (the \<open>es.writeArray\<close> callback, lines 100 to 113)\<close>

record tb_state =
  parents :: "jsstring set"
  children :: "row list"

text \<open>The body of \<open>ps.forEach\<close>.\<close>

definition tb_step :: "tb_state \<Rightarrow> row \<Rightarrow> tb_state" where
  "tb_step st proc =
     (if truthy_at (parents st) (PPID_of proc)
      then \<lparr>parents = set_true (parents st) (PID_of proc), children = children st @ [proc]\<rparr>
      else st)"

text \<open>\<open>parents = {}, children = []; parents[pid] = true\<close>.\<close>

definition tb_init :: "jsstring \<Rightarrow> tb_state" where
  "tb_init pid = \<lparr>parents = set_true {} pid, children = []\<rparr>"

definition tb_scan :: "jsstring \<Rightarrow> row list \<Rightarrow> tb_state" where
  "tb_scan pid ps = foldl tb_step (tb_init pid) ps"

text \<open>
  The callback ends with \<open>callback(null, children)\<close>: the completion handler gets no
  error (\<open>Inr\<close>) and the list. \<open>pid\<close> is the root PID as a property key.
\<close>

definition tree_builder :: "jsstring \<Rightarrow> row list \<Rightarrow> jsstring + row list" where
  "tree_builder pid ps = Inr (children (tb_scan pid ps))"

text \<open>A row literal \<open>{PPID: a, PID: b, STAT: c, COMMAND: d}\<close>.\<close>

definition mk_row :: "jsstring \<Rightarrow> jsstring \<Rightarrow> jsstring \<Rightarrow> jsstring \<Rightarrow> row" where
  "mk_row a b c d =
     [js ''PPID'' \<mapsto> a, js ''PID'' \<mapsto> b, js ''STAT'' \<mapsto> c, js ''COMMAND'' \<mapsto> d]"

section \<open>\<open>parseCsvLine\<close> (lines 122 to 138)\<close>

text \<open>
  The loop \<open>for (let c of line)\<close> with its three variables. It visits code points;
  a code point outside the basic plane is two code units, neither of them \<open>"\<close> or
  \<open>,\<close>, and appending it to \<open>current\<close> appends the two units, so visiting code
  units gives the same fields. 34 is the double quote and 44 the comma; \<open>fields_acc\<close>
  is the array \<open>fields\<close>.
\<close>

fun csv_loop :: "jsstring list \<Rightarrow> jsstring \<Rightarrow> bool \<Rightarrow> jsstring \<Rightarrow> jsstring list" where
  "csv_loop fields_acc current inQuote [] = fields_acc @ [current]"
| "csv_loop fields_acc current inQuote (c # cs) =
     (if c = 34 then csv_loop fields_acc current (\<not> inQuote) cs
      else if c = 44 \<and> \<not> inQuote then csv_loop (fields_acc @ [current]) [] inQuote cs
      else csv_loop fields_acc (current @ [c]) inQuote cs)"

definition parseCsvLine :: "jsstring \<Rightarrow> jsstring list" where
  "parseCsvLine line = csv_loop [] [] False line"

section \<open>\<open>normalizeHeader\<close> (lines 146 to 160)\<close>

definition normalizeHeader :: "jsstring \<Rightarrow> jsstring" where
  "normalizeHeader str =
     (if str = js ''Name'' \<or> str = js ''COMM'' then js ''COMMAND''
      else if str = js ''ParentProcessId'' then js ''PPID''
      else if str = js ''ProcessId'' then js ''PID''
      else if str = js ''Status'' then js ''STAT''
      else str)"

section \<open>Line parser (the \<open>es.map\<close> callback, lines 65 to 99)\<close>

subsection \<open>The string methods it calls\<close>

text \<open>\<open>line.trim()\<close>.\<close>

definition trim :: "jsstring \<Rightarrow> jsstring" where
  "trim s = rev (dropWhile is_space (rev (dropWhile is_space s)))"

text \<open>\<open>s.includes(pat)\<close>: \<open>pat\<close> occurs in \<open>s\<close> as a contiguous substring.\<close>

definition includes_str :: "jsstring \<Rightarrow> jsstring \<Rightarrow> bool" where
  "includes_str s pat = sublist pat s"

text \<open>
  \<open>s.split(/\<bsol>s+/)\<close>: the pieces of \<open>s\<close> between the maximal runs of
  whitespace; a run at either end leaves an empty piece there, and the empty string
  gives one empty piece. \<open>current\<close> is the piece being read.
\<close>

function split_ws :: "jsstring \<Rightarrow> jsstring \<Rightarrow> jsstring list" where
  "split_ws current [] = [current]"
| "split_ws current (c # cs) =
     (if is_space c then current # split_ws [] (dropWhile is_space cs)
      else split_ws (current @ [c]) cs)"
  by pat_completeness auto
termination
  by (relation "measure (\<lambda>(current, s). length s)")
    (auto simp: length_dropWhile_le less_Suc_eq_le)

text \<open>
  A greedy quantifier on a character class, as the backtracking matcher of ECMAScript
  runs it: \<open>rep cls least k acc s\<close> first tries to take one more character of the
  class \<open>cls\<close> from \<open>s\<close>; when that way fails, and at least \<open>least\<close> characters
  have been taken, it hands the characters taken (\<open>acc\<close>) and the rest of the input to
  the continuation \<open>k\<close>, the rest of the pattern.
\<close>

fun rep :: "(jschar \<Rightarrow> bool) \<Rightarrow> nat \<Rightarrow> (jsstring \<Rightarrow> jsstring \<Rightarrow> 'a option) \<Rightarrow>
    jsstring \<Rightarrow> jsstring \<Rightarrow> 'a option" where
  "rep cls least k acc [] = (if least = 0 then k acc [] else None)"
| "rep cls least k acc (c # cs) =
     (case (if cls c then rep cls (least - 1) k (acc @ [c]) cs else None) of
        Some r \<Rightarrow> Some r
      | None \<Rightarrow> if least = 0 then k acc (c # cs) else None)"

text \<open>
  \<open>trimmedLine.match(/^\<bsol>s*(\<bsol>d+)\<bsol>s+(\<bsol>d+)\<bsol>s+(\<bsol>S+)\<bsol>s+(.+)$/)\<close>,
  followed by \<open>.slice(1)\<close>: the four captures of the first way to match, or
  \<open>None\<close> for \<open>null\<close>. The pattern starts with \<open>^\<close> and has no \<open>m\<close> flag, so only
  a match from the first character is possible, and \<open>$\<close> asks for the end of the
  string.
\<close>

definition posix_match :: "jsstring \<Rightarrow> jsstring list option" where
  "posix_match s =
     rep is_space 0 (\<lambda>_ s.
     rep is_digit 1 (\<lambda>ppid s.
     rep is_space 1 (\<lambda>_ s.
     rep is_digit 1 (\<lambda>pid s.
     rep is_space 1 (\<lambda>_ s.
     rep (\<lambda>c. \<not> is_space c) 1 (\<lambda>stat s.
     rep is_space 1 (\<lambda>_ s.
     rep is_dot 1 (\<lambda>command s.
       if s = [] then Some [ppid, pid, stat, command] else None)
     [] s) [] s) [] s) [] s) [] s) [] s) [] s) [] s"

subsection \<open>The callback\<close>

text \<open>
  What the callback of \<open>es.map\<close> can tell the stream: \<open>cb()\<close> drops the line,
  \<open>cb(null, row)\<close> emits a row, \<open>cb(err)\<close> makes the stream emit an error.
\<close>

datatype map_result = Drop | Emit row | Fail jsstring

text \<open>\<open>columns\<close>, for both platforms.\<close>

definition columns_of :: "bool \<Rightarrow> jsstring \<Rightarrow> jsstring list" where
  "columns_of isWindows trimmedLine =
     (if isWindows then parseCsvLine trimmedLine
      else (case posix_match trimmedLine of Some m \<Rightarrow> m | None \<Rightarrow> []))"

text \<open>
  \<open>columns[i] || ''\<close>: \<open>undefined\<close> beyond the end of the array and the empty
  string are falsy.
\<close>

definition column_or_empty :: "jsstring list \<Rightarrow> nat \<Rightarrow> jsstring" where
  "column_or_empty columns i =
     (if i < length columns \<and> columns ! i \<noteq> [] then columns ! i else [])"

text \<open>\<open>row = {}; headers.forEach((header, i) => { row[header] = columns[i] || ''; })\<close>.\<close>

definition build_row :: "jsstring list \<Rightarrow> jsstring list \<Rightarrow> row" where
  "build_row headers columns =
     foldl (\<lambda>row (i, header). row_set row header (column_or_empty columns i))
       Map.empty (enumerate 0 headers)"

text \<open>
  One call of the callback. \<open>headers\<close> is the variable of \<open>childrenOfPid\<close> the
  callback reads and writes (\<open>None\<close> for \<open>null\<close>); its new value is returned with the
  answer to the stream.
\<close>

definition line_parser ::
    "bool \<Rightarrow> jsstring list option \<Rightarrow> jsstring \<Rightarrow> jsstring list option \<times> map_result" where
  "line_parser isWindows headers line =
     (let trimmedLine = trim line in
      if length trimmedLine = 0 \<or> includes_str trimmedLine (js ''----'') then (headers, Drop)
      else case headers of
        None \<Rightarrow>
          (let rawHeaders =
             (if isWindows then parseCsvLine trimmedLine else split_ws [] trimmedLine)
           in (Some (map normalizeHeader rawHeaders), Drop))
      | Some hs \<Rightarrow>
          (let columns = columns_of isWindows trimmedLine in
           if length columns < length hs then (headers, Drop)
           else (headers, Emit (build_row hs columns))))"

text \<open>
  The stream of lines through \<open>es.map\<close> into \<open>es.writeArray\<close>: the rows emitted, in
  order, or the error the stream emits.
\<close>

fun parse_lines :: "bool \<Rightarrow> jsstring list option \<Rightarrow> jsstring list \<Rightarrow> jsstring + row list" where
  "parse_lines isWindows headers [] = Inr []"
| "parse_lines isWindows headers (line # lines) =
     (case line_parser isWindows headers line of
        (headers', Drop) \<Rightarrow> parse_lines isWindows headers' lines
      | (headers', Emit row) \<Rightarrow>
          (case parse_lines isWindows headers' lines of
             Inl e \<Rightarrow> Inl e
           | Inr ps \<Rightarrow> Inr (row # ps))
      | (headers', Fail e) \<Rightarrow> Inl e)"

text \<open>The value of \<open>headers\<close> after a sequence of lines.\<close>

definition headers_after :: "bool \<Rightarrow> jsstring list option \<Rightarrow> jsstring list \<Rightarrow> jsstring list option" where
  "headers_after isWindows headers lines =
     foldl (\<lambda>h line. fst (line_parser isWindows h line)) headers lines"

section \<open>Public query (\<open>childrenOfPid\<close>, lines 6 to 115)\<close>

text \<open>
  The values \<open>pid\<close> and \<open>callback\<close> can be. A number is given by the string its
  \<open>toString()\<close> returns, the only thing the function does with it.
\<close>

datatype jsval =
    JUndefined | JNull | JBoolean bool | JNumber jsstring | JString jsstring
  | JBigInt jsstring | JSymbol | JObject | JFunction

fun typeof :: "jsval \<Rightarrow> jsstring" where
  "typeof JUndefined = js ''undefined''"
| "typeof JNull = js ''object''"
| "typeof (JBoolean b) = js ''boolean''"
| "typeof (JNumber n) = js ''number''"
| "typeof (JString s) = js ''string''"
| "typeof (JBigInt n) = js ''bigint''"
| "typeof JSymbol = js ''symbol''"
| "typeof JObject = js ''object''"
| "typeof JFunction = js ''function''"

datatype error = Error jsstring

text \<open>The one thing the function does to the world: it starts a subprocess.\<close>

datatype effect = Spawn jsstring "jsstring list"

definition processLister :: "bool \<Rightarrow> effect" where
  "processLister isWindows =
     (if isWindows
      then Spawn (js ''powershell.exe'')
        [js ''Get-CimInstance -Class Win32_Process | Select-Object -Property ParentProcessId,ProcessId,Status,Name | ConvertTo-Csv -NoTypeInformation'']
      else Spawn (js ''ps'') [js ''-A'', js ''-o'', js ''ppid,pid,stat,comm''])"

text \<open>
  The call of \<open>childrenOfPid\<close> up to its return: the check of \<open>callback\<close>, the
  conversion of \<open>pid\<close>, the \<open>spawn\<close>. \<open>effects\<close> are the subprocesses started so
  far. The result is the exception thrown, or the \<open>pid\<close> the stream callbacks will
  use.
\<close>

definition childrenOfPid ::
    "bool \<Rightarrow> jsval \<Rightarrow> jsval \<Rightarrow> effect list \<Rightarrow> (error + jsval) \<times> effect list" where
  "childrenOfPid isWindows pid callback effects =
     (if typeof callback \<noteq> js ''function''
      then (Inl (Error (js ''childrenOfPid(pid, callback) expects callback'')), effects)
      else
        (let pid = (case pid of JNumber n \<Rightarrow> JString n | _ \<Rightarrow> pid)
         in (Inr pid, effects @ [processLister isWindows])))"

text \<open>
  The rest of the query, once the subprocess has written the lines \<open>lines\<close> and its
  output has ended: the rows of the line parser go to the tree builder, and an error of
  the stream goes to \<open>callback\<close>.
\<close>

definition query_result :: "bool \<Rightarrow> jsstring \<Rightarrow> jsstring list \<Rightarrow> jsstring + row list" where
  "query_result isWindows pid lines =
     (case parse_lines isWindows None lines of
        Inl e \<Rightarrow> Inl e
      | Inr ps \<Rightarrow> tree_builder pid ps)"

section \<open>Notions of the specification\<close>

text \<open>A PID or PPID of the data model: a non-empty string of decimal digits.\<close>

definition is_pid :: "jsstring \<Rightarrow> bool" where
  "is_pid s \<longleftrightarrow> s \<noteq> [] \<and> (\<forall>c\<in>set s. is_digit c)"

text \<open>
  The transitive descendants of a root PID in a process table: the PID of a row whose
  PPID is the root, or whose PPID is itself a descendant.
\<close>

inductive descendant :: "jsstring \<Rightarrow> row list \<Rightarrow> jsstring \<Rightarrow> bool"
  for root :: jsstring and ps :: "row list" where
  child: "proc \<in> set ps \<Longrightarrow> PPID_of proc = root \<Longrightarrow> descendant root ps (PID_of proc)"
| grandchild: "proc \<in> set ps \<Longrightarrow> descendant root ps (PPID_of proc) \<Longrightarrow>
     descendant root ps (PID_of proc)"

code_pred descendant .

text \<open>The PPID chain of a row reaches the root: its parent is the root or a descendant.\<close>

definition chain_reaches :: "jsstring \<Rightarrow> row list \<Rightarrow> row \<Rightarrow> bool" where
  "chain_reaches root ps proc \<longleftrightarrow> PPID_of proc = root \<or> descendant root ps (PPID_of proc)"

text \<open>
  Parents before children: the PPID of every row is the root PID or the PID of a row
  that stands earlier in the sequence (\<open>earlier\<close> holds the rows already passed).
\<close>

fun parents_first_from :: "row list \<Rightarrow> jsstring \<Rightarrow> row list \<Rightarrow> bool" where
  "parents_first_from earlier root [] = True"
| "parents_first_from earlier root (proc # ps) =
     ((PPID_of proc = root \<or> PPID_of proc \<in> PID_of ` set earlier) \<and>
      parents_first_from (earlier @ [proc]) root ps)"

definition parents_first :: "jsstring \<Rightarrow> row list \<Rightarrow> bool" where
  "parents_first root ps = parents_first_from [] root ps"

subsection \<open>Fields of a CSV line, in the specification's words\<close>

text \<open>
  The state "inside a quoted field" before each character of the line: every double
  quote toggles it.
\<close>

fun quote_states :: "bool \<Rightarrow> jsstring \<Rightarrow> bool list" where
  "quote_states inQuote [] = []"
| "quote_states inQuote (c # cs) = inQuote # quote_states (if c = 34 then \<not> inQuote else inQuote) cs"

text \<open>The pieces of a list between the elements that are separators.\<close>

fun split_where :: "('a \<Rightarrow> bool) \<Rightarrow> 'a list \<Rightarrow> 'a list list" where
  "split_where sep [] = [[]]"
| "split_where sep (x # xs) =
     (if sep x then [] # split_where sep xs
      else (x # hd (split_where sep xs)) # tl (split_where sep xs))"

text \<open>
  The line is cut at the commas outside quoted fields, and the double quotes are removed
  from each piece.
\<close>

definition csv_pieces :: "bool \<Rightarrow> jsstring \<Rightarrow> jsstring list" where
  "csv_pieces inQuote line =
     map (\<lambda>piece. filter (\<lambda>c. c \<noteq> 34) (map fst piece))
       (split_where (\<lambda>(c, quoted). c = 44 \<and> \<not> quoted) (zip line (quote_states inQuote line)))"

definition csv_fields_spec :: "jsstring \<Rightarrow> jsstring list" where
  "csv_fields_spec line = csv_pieces False line"

text \<open>A field between double quotes, and fields joined by commas.\<close>

definition quoted :: "jsstring \<Rightarrow> jsstring" where
  "quoted f = 34 # f @ [34]"

fun csv_join :: "jsstring list \<Rightarrow> jsstring" where
  "csv_join [] = []"
| "csv_join [f] = f"
| "csv_join (f # g # fs) = f @ 44 # csv_join (g # fs)"

subsection \<open>Columns of a line of the whitespace table, in the specification's words\<close>

text \<open>
  The first whitespace-separated token of a string, and what follows the whitespace
  after it.
\<close>

definition token :: "jsstring \<Rightarrow> jsstring \<times> jsstring" where
  "token s =
     (takeWhile (\<lambda>c. \<not> is_space c) s, dropWhile is_space (dropWhile (\<lambda>c. \<not> is_space c) s))"

text \<open>
  The first two tokens, both of digits only, the third token, and the whole remainder
  of the line, which must not be empty.
\<close>

definition posix_tokens :: "jsstring \<Rightarrow> (jsstring \<times> jsstring \<times> jsstring \<times> jsstring) option" where
  "posix_tokens t =
     (let (ppid, rest1) = token t; (pid, rest2) = token rest1; (stat, command) = token rest2
      in if ppid \<noteq> [] \<and> list_all is_digit ppid \<and> pid \<noteq> [] \<and> list_all is_digit pid \<and>
            stat \<noteq> [] \<and> command \<noteq> []
         then Some (ppid, pid, stat, command) else None)"

text \<open>
  The same columns, on the condition that the remainder holds none of the line
  terminators CR, LS and PS (a line read from the stream holds no LF).
\<close>

definition posix_fields :: "jsstring \<Rightarrow> (jsstring \<times> jsstring \<times> jsstring \<times> jsstring) option" where
  "posix_fields t =
     (case posix_tokens t of
        None \<Rightarrow> None
      | Some (ppid, pid, stat, command) \<Rightarrow>
          if list_all is_dot command then Some (ppid, pid, stat, command) else None)"

text \<open>
  The header set of the POSIX listing, \<open>ps -A -o ppid,pid,stat,comm\<close>, normalized.
\<close>

definition ps_headers :: "jsstring list" where
  "ps_headers = [js ''PPID'', js ''PID'', js ''STAT'', js ''COMMAND'']"

subsection \<open>Malformed lines\<close>

text \<open>
  A line that is empty after trimming, or contains the separator \<open>----\<close>, or, once
  the header has been read, a line of the whitespace table that the pattern does not
  match, or a line with fewer columns than there are headers.
\<close>

definition malformed :: "bool \<Rightarrow> jsstring list option \<Rightarrow> jsstring \<Rightarrow> bool" where
  "malformed isWindows headers line \<longleftrightarrow>
     trim line = [] \<or> includes_str (trim line) (js ''----'') \<or>
     (case headers of
        None \<Rightarrow> False
      | Some hs \<Rightarrow>
          (\<not> isWindows \<and> posix_match (trim line) = None) \<or>
          length (columns_of isWindows (trim line)) < length hs)"

subsection \<open>Rows of the scenarios\<close>

text \<open>The two rows of the ordering scenario (they have no STAT).\<close>

definition row_child :: row where
  "row_child =
     [js ''PPID'' \<mapsto> js ''100'', js ''PID'' \<mapsto> js ''200'', js ''COMMAND'' \<mapsto> js ''child'']"

definition row_grandchild :: row where
  "row_grandchild =
     [js ''PPID'' \<mapsto> js ''200'', js ''PID'' \<mapsto> js ''300'',
      js ''COMMAND'' \<mapsto> js ''grandchild'']"

text \<open>
  The row of the line \<open>"0","0","","System Idle Process"\<close> quoted in the source's
  comment on the Windows listing.
\<close>

definition row_idle :: row where
  "row_idle = mk_row (js ''0'') (js ''0'') [] (js ''System Idle Process'')"

text \<open>
  The header line of the Windows listing and the line of the idle process, as the
  source's comment shows them.
\<close>

definition windows_header :: jsstring where
  "windows_header =
     csv_join (map quoted [js ''ParentProcessId'', js ''ProcessId'', js ''Status'', js ''Name''])"

definition windows_idle_line :: jsstring where
  "windows_idle_line = csv_join (map quoted [js ''0'', js ''0'', [], js ''System Idle Process''])"

text \<open>The three rows of the end-to-end scenario.\<close>

definition row_sh :: row where
  "row_sh = mk_row (js ''1'') (js ''100'') (js ''S'') (js ''sh'')"

definition row_node :: row where
  "row_node = mk_row (js ''100'') (js ''200'') (js ''R'') (js ''node'')"

definition row_other :: row where
  "row_other = mk_row (js ''999'') (js ''300'') (js ''S'') (js ''other'')"

section \<open>Basic facts\<close>

lemma PPID_of_mk_row: "PPID_of (mk_row a b c d) = a"
  by (simp add: PPID_of_def prop_key_def mk_row_def js_def)

lemma PID_of_mk_row: "PID_of (mk_row a b c d) = b"
  by (simp add: PID_of_def prop_key_def mk_row_def js_def)

lemma tb_scan_Nil: "tb_scan pid [] = tb_init pid"
  by (simp add: tb_scan_def)

lemma tb_scan_snoc: "tb_scan pid (ps @ [proc]) = tb_step (tb_scan pid ps) proc"
  by (simp add: tb_scan_def)

lemma is_pid_not_inherited: "is_pid k \<Longrightarrow> k \<notin> set object_prototype_keys"
  by (auto simp: is_pid_def object_prototype_keys_def js_def is_digit_def)

lemma proto_inherited: "js ''__proto__'' \<in> set object_prototype_keys"
  by (simp add: object_prototype_keys_def)

lemma parents_tb_scan:
  "parents (tb_scan pid ps) = insert pid (PID_of ` set (children (tb_scan pid ps))) - {js ''__proto__''}"
proof (induction ps rule: rev_induct)
  case Nil
  show ?case by (auto simp: tb_scan_Nil tb_init_def set_true_def)
next
  case (snoc proc ps)
  then show ?case by (auto simp: tb_scan_snoc tb_step_def set_true_def)
qed

lemma truthy_member:
  "k = pid \<or> k \<in> PID_of ` set (children (tb_scan pid ps)) \<Longrightarrow> truthy_at (parents (tb_scan pid ps)) k"
  using proto_inherited by (auto simp: truthy_at_def parents_tb_scan)

lemma truthy_plain:
  "k \<notin> set object_prototype_keys \<Longrightarrow>
   truthy_at (parents (tb_scan pid ps)) k \<longleftrightarrow> k = pid \<or> k \<in> PID_of ` set (children (tb_scan pid ps))"
  using proto_inherited by (auto simp: truthy_at_def parents_tb_scan)

lemma parents_first_from_snoc:
  "parents_first_from earlier root (ps @ [proc]) \<longleftrightarrow>
   parents_first_from earlier root ps \<and>
   (PPID_of proc = root \<or> PPID_of proc \<in> PID_of ` set (earlier @ ps))"
  by (induction ps arbitrary: earlier) auto

lemma parents_first_snoc:
  "parents_first root (ps @ [proc]) \<longleftrightarrow>
   parents_first root ps \<and> (PPID_of proc = root \<or> PPID_of proc \<in> PID_of ` set ps)"
  by (simp add: parents_first_def parents_first_from_snoc)

lemma parents_first_children: "parents_first root ps \<Longrightarrow> children (tb_scan root ps) = ps"
proof (induction ps rule: rev_induct)
  case Nil
  show ?case by (simp add: tb_scan_Nil tb_init_def)
next
  case (snoc proc ps)
  from snoc.prems have pf: "parents_first root ps"
    and m: "PPID_of proc = root \<or> PPID_of proc \<in> PID_of ` set ps"
    by (simp_all add: parents_first_snoc)
  from snoc.IH pf have c: "children (tb_scan root ps) = ps" by simp
  with m have "truthy_at (parents (tb_scan root ps)) (PPID_of proc)"
    by (intro truthy_member) simp
  with c show ?case by (simp add: tb_scan_snoc tb_step_def)
qed

lemma descendant_mono: "descendant root ps k \<Longrightarrow> set ps \<subseteq> set qs \<Longrightarrow> descendant root qs k"
  by (induction rule: descendant.induct) (auto intro: descendant.intros)

lemma parents_first_descendant:
  "parents_first root ps \<Longrightarrow> proc \<in> set ps \<Longrightarrow> descendant root ps (PID_of proc)"
proof (induction ps arbitrary: proc rule: rev_induct)
  case Nil
  then show ?case by simp
next
  case (snoc x ps)
  from snoc.prems have pf: "parents_first root ps"
    and m: "PPID_of x = root \<or> PPID_of x \<in> PID_of ` set ps"
    by (simp_all add: parents_first_snoc)
  have sub: "set ps \<subseteq> set (ps @ [x])" by auto
  show ?case
  proof (cases "proc \<in> set ps")
    case True
    with snoc.IH pf have "descendant root ps (PID_of proc)" by simp
    then show ?thesis using sub by (rule descendant_mono)
  next
    case False
    with snoc.prems have e: "proc = x" by simp
    from m show ?thesis
    proof
      assume "PPID_of x = root"
      then show ?thesis unfolding e by (intro descendant.child) simp_all
    next
      assume "PPID_of x \<in> PID_of ` set ps"
      then obtain q where q: "q \<in> set ps" "PPID_of x = PID_of q" by auto
      with snoc.IH pf have "descendant root ps (PID_of q)" by simp
      then have "descendant root (ps @ [x]) (PPID_of x)"
        unfolding q(2) using sub by (rule descendant_mono)
      then show ?thesis unfolding e by (intro descendant.grandchild) simp_all
    qed
  qed
qed

lemma row_child_keys: "PPID_of row_child = js ''100''" "PID_of row_child = js ''200''"
  by (simp_all add: row_child_def PPID_of_def PID_of_def prop_key_def js_def)

lemma row_grandchild_keys: "PPID_of row_grandchild = js ''200''" "PID_of row_grandchild = js ''300''"
  by (simp_all add: row_grandchild_def PPID_of_def PID_of_def prop_key_def js_def)

lemma tb_step_included:
  "truthy_at (parents st) (PPID_of proc) \<Longrightarrow>
   tb_step st proc = \<lparr>parents = set_true (parents st) (PID_of proc), children = children st @ [proc]\<rparr>"
  by (simp add: tb_step_def)

lemma tb_step_skipped: "\<not> truthy_at (parents st) (PPID_of proc) \<Longrightarrow> tb_step st proc = st"
  by (simp add: tb_step_def)

lemma children_snoc_plain:
  assumes "PPID_of proc \<notin> set object_prototype_keys"
  shows "children (tb_scan root (ps @ [proc])) =
         children (tb_scan root ps) @
         (if PPID_of proc = root \<or> PPID_of proc \<in> PID_of ` set (children (tb_scan root ps))
          then [proc] else [])"
  using truthy_plain [OF assms, of root ps] by (simp add: tb_scan_snoc tb_step_def)

lemma children_prefix: "prefix (children (tb_scan root pre)) (children (tb_scan root (pre @ post)))"
proof (induction post rule: rev_induct)
  case Nil
  show ?case by simp
next
  case (snoc proc post)
  have "prefix (children (tb_scan root (pre @ post))) (children (tb_step (tb_scan root (pre @ post)) proc))"
    by (simp add: tb_step_def)
  with snoc show ?case
    unfolding append_assoc [symmetric] tb_scan_snoc by (rule prefix_order.trans)
qed

lemma parents_grow: "parents (tb_scan root pre) \<subseteq> parents (tb_scan root (pre @ post))"
proof (induction post rule: rev_induct)
  case Nil
  show ?case by simp
next
  case (snoc proc post)
  have "parents (tb_scan root (pre @ post)) \<subseteq> parents (tb_step (tb_scan root (pre @ post)) proc)"
    by (auto simp: tb_step_def set_true_def)
  with snoc show ?case
    unfolding append_assoc [symmetric] tb_scan_snoc by (rule subset_trans)
qed

lemma children_subseq: "subseq (children (tb_scan root ps)) ps"
proof (induction ps rule: rev_induct)
  case Nil
  show ?case by (simp add: tb_scan_Nil tb_init_def)
next
  case (snoc proc ps)
  show ?case
  proof (cases "truthy_at (parents (tb_scan root ps)) (PPID_of proc)")
    case True
    from snoc have "subseq (children (tb_scan root ps) @ [proc]) (ps @ [proc])"
      by (intro list_emb_append_mono) simp_all
    with True show ?thesis by (simp add: tb_scan_snoc tb_step_def)
  next
    case False
    from snoc have "subseq (children (tb_scan root ps)) (ps @ [proc])"
      by (rule list_emb_prefix)
    with False show ?thesis by (simp add: tb_scan_snoc tb_step_def)
  qed
qed

lemma children_parents_first:
  "\<forall>proc\<in>set ps. PPID_of proc \<notin> set object_prototype_keys \<Longrightarrow>
   parents_first root (children (tb_scan root ps))"
proof (induction ps rule: rev_induct)
  case Nil
  show ?case by (simp add: tb_scan_Nil tb_init_def parents_first_def)
next
  case (snoc proc ps)
  then have IH: "parents_first root (children (tb_scan root ps))"
    and p: "PPID_of proc \<notin> set object_prototype_keys" by simp_all
  show ?case
    unfolding children_snoc_plain [OF p] using IH by (simp add: parents_first_snoc)
qed

lemma parents_plain:
  assumes "root \<noteq> js ''__proto__''" "\<forall>proc\<in>set ps. PID_of proc \<noteq> js ''__proto__''"
  shows "parents (tb_scan root ps) = insert root (PID_of ` set (children (tb_scan root ps)))"
proof -
  have "set (children (tb_scan root ps)) \<subseteq> set ps"
    using children_subseq [of root ps] by (auto dest: list_emb_set)
  with assms show ?thesis unfolding parents_tb_scan by auto
qed

lemma no_child_empty:
  assumes "\<forall>proc\<in>set ps. PPID_of proc \<notin> set object_prototype_keys"
    and "\<forall>proc\<in>set ps. PPID_of proc \<noteq> root"
  shows "children (tb_scan root ps) = []"
  using assms
proof (induction ps rule: rev_induct)
  case Nil
  show ?case by (simp add: tb_scan_Nil tb_init_def)
next
  case (snoc proc ps)
  then have c: "children (tb_scan root ps) = []" and p: "PPID_of proc \<notin> set object_prototype_keys"
    and n: "PPID_of proc \<noteq> root" by simp_all
  show ?case unfolding children_snoc_plain [OF p] using c n by simp
qed


lemma descendant_has_child:
  "descendant root ps k \<Longrightarrow> \<exists>proc\<in>set ps. PPID_of proc = root"
  by (induction rule: descendant.induct) auto

lemma no_chain_iff:
  "(\<forall>proc\<in>set ps. \<not> chain_reaches root ps proc) \<longleftrightarrow> (\<forall>proc\<in>set ps. PPID_of proc \<noteq> root)"
  unfolding chain_reaches_def using descendant_has_child by blast

lemma scenario_keys:
  "PPID_of row_sh = js ''1''" "PID_of row_sh = js ''100''"
  "PPID_of row_node = js ''100''" "PID_of row_node = js ''200''"
  "PPID_of row_other = js ''999''" "PID_of row_other = js ''300''"
  "PPID_of row_idle = js ''0''" "PID_of row_idle = js ''0''"
  by (simp_all add: row_sh_def row_node_def row_other_def row_idle_def
      PPID_of_mk_row PID_of_mk_row)

lemma is_pid_literals:
  "is_pid (js ''0'')" "is_pid (js ''1'')" "is_pid (js ''100'')" "is_pid (js ''200'')"
  "is_pid (js ''300'')" "is_pid (js ''999'')" "is_pid (js ''4242'')"
  by (simp_all add: is_pid_def is_digit_def js_def)

section \<open>Facts about the CSV parser\<close>

lemma split_where_not_Nil: "split_where sep xs \<noteq> []"
  by (induction xs) auto

lemma csv_pieces_not_Nil: "csv_pieces q cs \<noteq> []"
  by (simp add: csv_pieces_def split_where_not_Nil)

lemma csv_pieces_Nil: "csv_pieces q [] = [[]]"
  by (simp add: csv_pieces_def)

lemma csv_pieces_quote: "csv_pieces q (34 # cs) = csv_pieces (\<not> q) cs"
  using split_where_not_Nil [of "\<lambda>(c, quoted). c = 44 \<and> \<not> quoted" "zip cs (quote_states (\<not> q) cs)"]
  by (cases "split_where (\<lambda>(c, quoted). c = 44 \<and> \<not> quoted) (zip cs (quote_states (\<not> q) cs))")
    (simp_all add: csv_pieces_def)

lemma csv_pieces_separator: "csv_pieces False (44 # cs) = [] # csv_pieces False cs"
  by (simp add: csv_pieces_def)

lemma csv_pieces_other:
  "c \<noteq> 34 \<Longrightarrow> \<not> (c = 44 \<and> \<not> q) \<Longrightarrow>
   csv_pieces q (c # cs) = (c # hd (csv_pieces q cs)) # tl (csv_pieces q cs)"
  using split_where_not_Nil [of "\<lambda>(c, quoted). c = 44 \<and> \<not> quoted" "zip cs (quote_states q cs)"]
  by (cases "split_where (\<lambda>(c, quoted). c = 44 \<and> \<not> quoted) (zip cs (quote_states q cs))")
    (auto simp add: csv_pieces_def)

lemma csv_loop_pieces:
  "csv_loop fa cur q cs = fa @ (cur @ hd (csv_pieces q cs)) # tl (csv_pieces q cs)"
proof (induction cs arbitrary: fa cur q)
  case Nil
  show ?case by (simp add: csv_pieces_Nil)
next
  case (Cons c cs)
  show ?case
  proof (cases "c = 34")
    case True
    then show ?thesis by (simp add: Cons.IH csv_pieces_quote)
  next
    case nq: False
    show ?thesis
    proof (cases "c = 44 \<and> \<not> q")
      case True
      then show ?thesis
        using csv_pieces_not_Nil [of False cs]
        by (cases "csv_pieces False cs") (simp_all add: Cons.IH csv_pieces_separator)
    next
      case False
      with nq have "csv_loop fa cur q (c # cs) = csv_loop fa (cur @ [c]) q cs" by auto
      with nq False show ?thesis by (simp add: Cons.IH csv_pieces_other)
    qed
  qed
qed

lemma parseCsvLine_spec: "parseCsvLine line = csv_fields_spec line"
  using csv_pieces_not_Nil [of False line]
  by (cases "csv_pieces False line") (simp_all add: parseCsvLine_def csv_fields_spec_def csv_loop_pieces)

lemma csv_pieces_no_quote: "f \<in> set (csv_pieces q cs) \<Longrightarrow> 34 \<notin> set f"
  by (auto simp: csv_pieces_def)

lemma csv_loop_in_quote:
  "34 \<notin> set f \<Longrightarrow> csv_loop fa cur True (f @ rest) = csv_loop fa (cur @ f) True rest"
  by (induction f arbitrary: cur) auto

lemma csv_loop_quoted:
  "34 \<notin> set f \<Longrightarrow> csv_loop fa cur False (quoted f @ rest) = csv_loop fa (cur @ f) False rest"
  by (simp add: quoted_def csv_loop_in_quote)

lemma csv_loop_join:
  "fs \<noteq> [] \<Longrightarrow> \<forall>f\<in>set fs. 34 \<notin> set f \<Longrightarrow>
   csv_loop fa [] False (csv_join (map quoted fs)) = fa @ fs"
proof (induction fs arbitrary: fa rule: csv_join.induct)
  case 1
  then show ?case by simp
next
  case (2 f)
  then show ?case using csv_loop_quoted [of f fa "[]" "[]"] by simp
next
  case (3 f g fs)
  then show ?case 
    using csv_loop_quoted [of f fa "[]" "44 # csv_join (map quoted (g # fs))"] by simp
qed


section \<open>Facts about the pattern of the whitespace table\<close>

lemma digit_not_space: "is_digit c \<Longrightarrow> \<not> is_space c"
  using order_trans [of 48 c 13] order_trans [of 8192 c 57]
  by (auto simp: is_digit_def is_space_def)

lemma rep_greedy:
  "list_all cls xs \<Longrightarrow> rest = [] \<or> \<not> cls (hd rest) \<Longrightarrow> least \<le> length xs \<Longrightarrow>
   k (acc @ xs) rest = Some r \<Longrightarrow> rep cls least k acc (xs @ rest) = Some r"
proof (induction xs arbitrary: acc least)
  case Nil
  then show ?case by (cases rest) auto
next
  case (Cons x xs)
  from Cons.prems have "rep cls (least - 1) k (acc @ [x]) (xs @ rest) = Some r"
    by (intro Cons.IH) auto
  with Cons.prems show ?case by simp
qed

lemma rep_soundE:
  assumes "rep cls least k acc s = Some r"
  obtains xs rest where "s = xs @ rest" "list_all cls xs" "least \<le> length xs"
    "k (acc @ xs) rest = Some r"
proof -
  have "\<exists>xs rest. s = xs @ rest \<and> list_all cls xs \<and> least \<le> length xs \<and>
      k (acc @ xs) rest = Some r"
    using assms
  proof (induction s arbitrary: acc least)
    case Nil
    then show ?case by (auto split: if_splits)
  next
    case (Cons c cs)
    show ?case
    proof (cases "cls c \<and> rep cls (least - 1) k (acc @ [c]) cs = Some r")
      case True
      then obtain xs rest where "cs = xs @ rest" "list_all cls xs" "least - 1 \<le> length xs"
        "k ((acc @ [c]) @ xs) rest = Some r"
        using Cons.IH by blast
      with True have "c # cs = (c # xs) @ rest \<and> list_all cls (c # xs) \<and>
          least \<le> length (c # xs) \<and> k (acc @ c # xs) rest = Some r"
        by auto
      then show ?thesis by blast
    next
      case False
      with Cons.prems have "least = 0 \<and> k acc (c # cs) = Some r"
        by (auto split: if_splits option.splits)
      then have "c # cs = [] @ (c # cs) \<and> list_all cls [] \<and> least \<le> length ([]::jsstring) \<and>
          k (acc @ []) (c # cs) = Some r"
        by simp
      then show ?thesis by blast
    qed
  qed
  with that show thesis by blast
qed

lemma token_append:
  assumes "list_all (\<lambda>c. \<not> is_space c) tok" "w \<noteq> []" "list_all is_space w"
  shows "token (tok @ w @ rest) = (tok, dropWhile is_space rest)"
proof -
  from assms(2,3) have hw: "is_space (hd w)" by (cases w) auto
  from assms(1) have t: "\<And>x. x \<in> set tok \<Longrightarrow> \<not> is_space x" by (simp add: list_all_iff)
  from assms(3) have s: "\<And>x. x \<in> set w \<Longrightarrow> is_space x" by (simp add: list_all_iff)
  have "takeWhile (\<lambda>c. \<not> is_space c) (w @ rest) = []"
    using assms(2) hw by (cases w) auto
  then have a: "takeWhile (\<lambda>c. \<not> is_space c) (tok @ w @ rest) = tok"
    using t by (simp add: takeWhile_append2)
  have "dropWhile (\<lambda>c. \<not> is_space c) (w @ rest) = w @ rest"
    using assms(2) hw by (cases w) auto
  then have b: "dropWhile (\<lambda>c. \<not> is_space c) (tok @ w @ rest) = w @ rest"
    using t by (simp add: dropWhile_append2)
  have c: "dropWhile is_space (w @ rest) = dropWhile is_space rest"
    using s by (simp add: dropWhile_append2)
  show ?thesis by (simp add: token_def a b c)
qed

lemma token_split:
  assumes "token s = (tok, rest)" "rest \<noteq> []"
  obtains w where "s = tok @ w @ rest" "w \<noteq> []" "list_all is_space w"
    "list_all (\<lambda>c. \<not> is_space c) tok" "\<not> is_space (hd rest)"
proof -
  let ?d = "dropWhile (\<lambda>c. \<not> is_space c) s"
  let ?w = "takeWhile is_space ?d"
  from assms have tok: "tok = takeWhile (\<lambda>c. \<not> is_space c) s" and rest: "rest = dropWhile is_space ?d"
    by (simp_all add: token_def)
  have 1: "s = tok @ ?w @ rest" unfolding tok rest by simp
  have dne: "?d \<noteq> []"
  proof
    assume e: "?d = []"
    have "rest = dropWhile is_space []" by (simp only: rest e)
    with assms(2) show False by simp
  qed
  then have "\<not> \<not> is_space (hd ?d)" by (rule hd_dropWhile)
  with dne have 2: "?w \<noteq> []" by (cases ?d) auto
  have 3: "list_all is_space ?w" by (auto simp: list_all_iff dest: set_takeWhileD)
  have 4: "list_all (\<lambda>c. \<not> is_space c) tok"
    unfolding tok by (auto simp: list_all_iff dest: set_takeWhileD)
  from assms(2) have 5: "\<not> is_space (hd rest)" unfolding rest by (rule hd_dropWhile)
  from 1 2 3 4 5 that show thesis by blast
qed


lemma hd_list_all: "w \<noteq> [] \<Longrightarrow> list_all P w \<Longrightarrow> P (hd w)"
  by (cases w) auto

lemma space_not_digit: "is_space c \<Longrightarrow> \<not> is_digit c"
  using digit_not_space by blast

lemma posix_shape_match:
  assumes a: "a \<noteq> []" "list_all is_digit a" and w1: "w1 \<noteq> []" "list_all is_space w1"
    and b: "b \<noteq> []" "list_all is_digit b" and w2: "w2 \<noteq> []" "list_all is_space w2"
    and c: "c \<noteq> []" "list_all (\<lambda>x. \<not> is_space x) c" and w3: "w3 \<noteq> []" "list_all is_space w3"
    and d: "d \<noteq> []" "list_all is_dot d" "\<not> is_space (hd d)"
  shows "posix_match (a @ w1 @ b @ w2 @ c @ w3 @ d) = Some [a, b, c, d]"
proof -
  note digits = hd_list_all [OF a] hd_list_all [OF b]
  note spaces = hd_list_all [OF w1] hd_list_all [OF w2] hd_list_all [OF w3]
  note heads = digits spaces hd_list_all [OF c] digits [THEN digit_not_space]
    spaces [THEN space_not_digit]
  have "posix_match ([] @ a @ w1 @ b @ w2 @ c @ w3 @ d @ []) = Some [a, b, c, d]"
    unfolding posix_match_def
    apply (rule rep_greedy)
       apply (simp_all add: a heads)[3]
    apply (rule rep_greedy)
       apply (simp_all add: a w1 heads Suc_le_eq)[3]
    apply (rule rep_greedy)
       apply (simp_all add: w1 b heads Suc_le_eq)[3]
    apply (rule rep_greedy)
       apply (simp_all add: b w2 heads Suc_le_eq)[3]
    apply (rule rep_greedy)
       apply (simp_all add: w2 c heads Suc_le_eq)[3]
    apply (rule rep_greedy)
       apply (simp_all add: c w3 heads Suc_le_eq)[3]
    apply (rule rep_greedy)
       apply (simp_all add: w3 d heads Suc_le_eq)[3]
    apply (rule rep_greedy)
       apply (simp_all add: d Suc_le_eq)
    done
  then show ?thesis by simp
qed

lemma token_fst_Nil: "token s = (tok, rest) \<Longrightarrow> tok \<noteq> [] \<Longrightarrow> s \<noteq> []"
  by (auto simp: token_def)

lemma posix_fields_match:
  assumes "posix_fields t = Some (a, b, c, d)"
  shows "posix_match t = Some [a, b, c, d]"
proof -
  from assms have tk: "posix_tokens t = Some (a, b, c, d)" and dot: "list_all is_dot d"
    by (auto simp: posix_fields_def split: option.splits if_splits)
  obtain r1 r2 where t1: "token t = (a, r1)" and t2: "token r1 = (b, r2)"
    and t3: "token r2 = (c, d)"
    and ne: "a \<noteq> []" "b \<noteq> []" "c \<noteq> []" "d \<noteq> []"
    and dig: "list_all is_digit a" "list_all is_digit b"
    using tk unfolding posix_tokens_def
    by (auto simp: Let_def split: prod.splits if_splits)
  from t3 ne(3) have r2: "r2 \<noteq> []" by (rule token_fst_Nil)
  from t2 ne(2) have r1: "r1 \<noteq> []" by (rule token_fst_Nil)
  from t1 r1 obtain w1 where s1: "t = a @ w1 @ r1" and w1: "w1 \<noteq> []" "list_all is_space w1"
    by (rule token_split)
  from t2 r2 obtain w2 where s2: "r1 = b @ w2 @ r2" and w2: "w2 \<noteq> []" "list_all is_space w2"
    by (rule token_split)
  from t3 ne(4) obtain w3 where s3: "r2 = c @ w3 @ d" and w3: "w3 \<noteq> []" "list_all is_space w3"
    and c: "list_all (\<lambda>x. \<not> is_space x) c" and hd: "\<not> is_space (hd d)"
    by (rule token_split)
  have t: "t = a @ w1 @ b @ w2 @ c @ w3 @ d" by (simp add: s1 s2 s3)
  from dot ne dig w1 w2 w3 c hd show ?thesis
    unfolding t by (intro posix_shape_match)
qed

lemma dropWhile_hd: "s \<noteq> [] \<Longrightarrow> \<not> P (hd s) \<Longrightarrow> dropWhile P s = s"
  by (cases s) auto

lemma posix_match_fields:
  assumes m: "posix_match t = Some m" and t: "t \<noteq> []" "\<not> is_space (hd t)" "\<not> is_space (last t)"
  shows "\<exists>a b c d. m = [a, b, c, d] \<and> posix_fields t = Some (a, b, c, d)"
proof -
  from m obtain w0 a w1 b w2 c w3 d where
    dec: "t = w0 @ a @ w1 @ b @ w2 @ c @ w3 @ d" and mm: "m = [a, b, c, d]"
    and w0: "list_all is_space w0"
    and a: "list_all is_digit a" "a \<noteq> []" and w1: "list_all is_space w1" "w1 \<noteq> []"
    and b: "list_all is_digit b" "b \<noteq> []" and w2: "list_all is_space w2" "w2 \<noteq> []"
    and c: "list_all (\<lambda>x. \<not> is_space x) c" "c \<noteq> []" and w3: "list_all is_space w3" "w3 \<noteq> []"
    and d: "d \<noteq> []" and dd: "list_all is_dot d"
    unfolding posix_match_def
    apply (elim rep_soundE)
    apply (auto split: if_splits simp: Suc_le_eq)
    done
  have w0e: "w0 = []"
  proof (rule ccontr)
    assume n: "w0 \<noteq> []"
    then have "hd t = hd w0" unfolding dec by simp
    with hd_list_all [OF n w0] t(2) show False by simp
  qed
  have na: "list_all (\<lambda>x. \<not> is_space x) a" and nb: "list_all (\<lambda>x. \<not> is_space x) b"
    using a(1) b(1) by (auto simp: list_all_iff dest: digit_not_space)
  have hb: "\<not> is_space (hd b)" using hd_list_all [OF b(2) nb] .
  have hc: "\<not> is_space (hd c)" using hd_list_all [OF c(2) c(1)] .
  let ?d = "dropWhile is_space d"
  have "last t = last d" unfolding dec using d by simp
  with t(3) have "\<not> is_space (last d)" by simp
  moreover from d have "last d \<in> set d" by simp
  ultimately have dne: "?d \<noteq> []" by (auto simp only: dropWhile_eq_Nil_conv)
  have k1: "token t = (a, b @ w2 @ c @ w3 @ d)"
    unfolding dec w0e using token_append [OF na w1(2) w1(1), of "b @ w2 @ c @ w3 @ d"] b(2) hb
    by (simp add: dropWhile_hd)
  have k2: "token (b @ w2 @ c @ w3 @ d) = (b, c @ w3 @ d)"
    using token_append [OF nb w2(2) w2(1), of "c @ w3 @ d"] c(2) hc
    by (simp add: dropWhile_hd)
  have k3: "token (c @ w3 @ d) = (c, ?d)"
    using token_append [OF c(1) w3(2) w3(1), of d] by simp
  from dne have dne': "\<exists>x\<in>set d. \<not> is_space x" by (simp add: dropWhile_eq_Nil_conv)
  have "posix_tokens t = Some (a, b, c, ?d)"
    unfolding posix_tokens_def using dne' by (simp add: k1 k2 k3 a b c)
  moreover from dd have "list_all is_dot ?d"
    by (auto simp: list_all_iff dest: set_dropWhileD)
  ultimately have f: "posix_fields t = Some (a, b, c, ?d)"
    by (simp add: posix_fields_def)
  then have "posix_match t = Some [a, b, c, ?d]" by (rule posix_fields_match)
  with m mm have "?d = d" by simp
  with f mm show ?thesis by simp
qed

lemma posix_match_eq_fields:
  assumes "t \<noteq> []" "\<not> is_space (hd t)" "\<not> is_space (last t)"
  shows "posix_match t = map_option (\<lambda>(a, b, c, d). [a, b, c, d]) (posix_fields t)"
proof (cases "posix_fields t")
  case None
  have "posix_match t = None"
  proof (cases "posix_match t")
    case (Some m)
    from posix_match_fields [OF Some assms] None show ?thesis by simp
  qed simp
  with None show ?thesis by simp
next
  case (Some f)
  obtain a b c d where "f = (a, b, c, d)" by (cases f) auto
  with Some posix_fields_match [of t a b c d] show ?thesis by simp
qed

lemma trim_ends:
  assumes "trim s \<noteq> []"
  shows "\<not> is_space (hd (trim s))" "\<not> is_space (last (trim s))"
proof -
  let ?u = "dropWhile is_space s"
  let ?v = "dropWhile is_space (rev ?u)"
  from assms have v: "?v \<noteq> []" by (simp add: trim_def)
  have u: "?u \<noteq> []"
  proof
    assume e: "?u = []"
    have "?v = dropWhile is_space (rev [])" by (simp only: e)
    with v show False by simp
  qed
  have "last (trim s) = hd ?v" unfolding trim_def by (rule last_rev)
  moreover have "\<not> is_space (hd ?v)" using v by (rule hd_dropWhile)
  ultimately show "\<not> is_space (last (trim s))" by simp
  have "rev ?u = takeWhile is_space (rev ?u) @ ?v" by simp
  then have "last (rev ?u) = last ?v" using v by (metis last_appendR)
  then have "hd (trim s) = hd ?u" unfolding trim_def by (simp only: hd_rev last_rev)
  moreover have "\<not> is_space (hd ?u)" using u by (rule hd_dropWhile)
  ultimately show "\<not> is_space (hd (trim s))" by simp
qed


section \<open>Facts about the line parser\<close>

lemma build_row_ps: "build_row ps_headers [a, b, c, d] = mk_row a b c d"
  by (simp add: build_row_def ps_headers_def mk_row_def row_set_def column_or_empty_def js_def)

lemma header_lines:
  "line_parser False None (js ''  PPID   PID STAT COMMAND'') = (Some ps_headers, Drop)"
  "line_parser False None (js '' PPID   PID STAT COMM'') = (Some ps_headers, Drop)"
  by (simp_all add: line_parser_def trim_def includes_str_def sublist_Cons_right ps_headers_def
      normalizeHeader_def js_def is_space_def)

lemma csv_loop_not_Nil: "csv_loop fa cur q cs \<noteq> []"
  by (induction cs arbitrary: fa cur q) auto

lemma split_ws_not_Nil: "split_ws cur s \<noteq> []"
  by (induction cur s rule: split_ws.induct) auto

lemma line_parser_headers:
  assumes "line_parser isWindows headers line = (headers', r)"
    and "\<forall>hs. headers = Some hs \<longrightarrow> hs \<noteq> []"
  shows "\<forall>hs. headers' = Some hs \<longrightarrow> hs \<noteq> []"
  using assms
  by (auto simp: line_parser_def Let_def parseCsvLine_def csv_loop_not_Nil split_ws_not_Nil
      split: if_splits option.splits)

lemma headers_after_snoc:
  "headers_after isWindows headers (lines @ [line]) =
   fst (line_parser isWindows (headers_after isWindows headers lines) line)"
  by (simp add: headers_after_def)

lemma headers_after_Cons:
  "headers_after isWindows headers (line # lines) =
   headers_after isWindows (fst (line_parser isWindows headers line)) lines"
  by (simp add: headers_after_def)

lemma headers_after_not_Nil:
  "headers_after isWindows None lines = Some hs \<Longrightarrow> hs \<noteq> []"
proof -
  have "\<forall>hs. headers_after isWindows None lines = Some hs \<longrightarrow> hs \<noteq> []"
  proof (induction lines rule: rev_induct)
    case Nil
    show ?case by (simp add: headers_after_def)
  next
    case (snoc line lines)
    obtain h r where lp: "line_parser isWindows (headers_after isWindows None lines) line = (h, r)"
      by (cases "line_parser isWindows (headers_after isWindows None lines) line") auto
    from line_parser_headers [OF lp snoc] lp show ?case
      by (simp add: headers_after_snoc)
  qed
  then show "headers_after isWindows None lines = Some hs \<Longrightarrow> hs \<noteq> []" by blast
qed

lemma line_parser_no_Fail: "snd (line_parser isWindows headers line) \<noteq> Fail e"
  by (simp add: line_parser_def Let_def split: option.splits)

lemma parse_lines_append:
  "parse_lines isWindows headers (xs @ ys) =
     (case parse_lines isWindows headers xs of
        Inl e \<Rightarrow> Inl e
      | Inr ps \<Rightarrow>
          (case parse_lines isWindows (headers_after isWindows headers xs) ys of
             Inl e \<Rightarrow> Inl e
           | Inr qs \<Rightarrow> Inr (ps @ qs)))"
proof (induction xs arbitrary: headers)
  case Nil
  show ?case by (simp add: headers_after_def split: sum.splits)
next
  case (Cons x xs)
  obtain h r where lp: "line_parser isWindows headers x = (h, r)"
    by (cases "line_parser isWindows headers x") auto
  show ?case
    by (cases r) (simp_all add: lp Cons.IH headers_after_Cons split: sum.splits)
qed

lemma parse_lines_Inr: "\<exists>ps. parse_lines isWindows headers lines = Inr ps"
proof (induction lines arbitrary: headers)
  case Nil
  show ?case by simp
next
  case (Cons x xs)
  obtain h r where lp: "line_parser isWindows headers x = (h, r)"
    by (cases "line_parser isWindows headers x") auto
  from Cons [of h] obtain ps where ps: "parse_lines isWindows h xs = Inr ps" by blast
  from line_parser_no_Fail [of isWindows headers x] lp have "\<And>e. r \<noteq> Fail e" by simp
  then show ?case by (cases r) (auto simp: lp ps)
qed

lemma malformed_Drop:
  assumes "malformed isWindows headers line" and "\<forall>hs. headers = Some hs \<longrightarrow> hs \<noteq> []"
  shows "line_parser isWindows headers line = (headers, Drop)"
proof (cases "trim line = [] \<or> includes_str (trim line) (js ''----'')")
  case True
  then show ?thesis by (auto simp: line_parser_def)
next
  case False
  with assms(1) obtain hs where hs: "headers = Some hs"
    and m: "(\<not> isWindows \<and> posix_match (trim line) = None) \<or>
            length (columns_of isWindows (trim line)) < length hs"
    by (auto simp: malformed_def split: option.splits)
  from assms(2) hs have "hs \<noteq> []" by simp
  with m have "length (columns_of isWindows (trim line)) < length hs"
    by (auto simp: columns_of_def)
  with False hs show ?thesis by (simp add: line_parser_def)
qed

section \<open>The scenarios, evaluated\<close>

text \<open>
  The Windows header normalizes to the header set of the POSIX listing, and the line of
  the idle process is parsed to the row \<open>row_idle\<close>.
\<close>

lemma windows_header_parsed: "line_parser True None windows_header = (Some ps_headers, Drop)"
  by (simp add: windows_header_def line_parser_def trim_def includes_str_def sublist_Cons_right
      parseCsvLine_def quoted_def normalizeHeader_def ps_headers_def js_def is_space_def)

lemma windows_idle_parsed:
  "line_parser True (Some ps_headers) windows_idle_line = (Some ps_headers, Emit row_idle)"
proof -
  have t: "trim windows_idle_line = windows_idle_line"
    by (simp add: windows_idle_line_def trim_def quoted_def js_def is_space_def)
  have i: "\<not> includes_str windows_idle_line (js ''----'')"
    by (simp add: windows_idle_line_def includes_str_def sublist_Cons_right quoted_def js_def)
  have n: "windows_idle_line \<noteq> []"
    by (simp add: windows_idle_line_def quoted_def)
  have c: "parseCsvLine windows_idle_line = [js ''0'', js ''0'', [], js ''System Idle Process'']"
    unfolding windows_idle_line_def
    using csv_loop_join [of "[js ''0'', js ''0'', [], js ''System Idle Process'']" "[]"]
    by (simp add: parseCsvLine_def js_def)
  have l: "length ps_headers = 4" by (simp add: ps_headers_def)
  show ?thesis
    by (simp add: line_parser_def t i n columns_of_def c l build_row_ps row_idle_def)
qed

lemma windows_idle_query:
  "query_result True (js ''0'') [windows_header, windows_idle_line] = Inr [row_idle]"
  by (simp add: query_result_def windows_header_parsed windows_idle_parsed
      tree_builder_def tb_scan_def tb_step_def tb_init_def truthy_at_def set_true_def
      scenario_keys js_def)

text \<open>
  A PPID that names a property of \<open>Object.prototype\<close> passes the test
  \<open>parents[proc.PPID]\<close> whatever the root is; the PIDs of the data model, decimal
  strings, are not among these names (\<open>is_pid_not_inherited\<close>).
\<close>

lemma inherited_key_row:
  "tree_builder (js ''1'') [mk_row (js ''constructor'') (js ''7'') [] []] =
     Inr [mk_row (js ''constructor'') (js ''7'') [] []]"
  by (simp add: tree_builder_def tb_scan_def tb_step_def tb_init_def truthy_at_def set_true_def
      PPID_of_mk_row PID_of_mk_row object_prototype_keys_def)

text \<open>The end-to-end scenario of the specification.\<close>

lemma end_to_end_rows:
  "tree_builder (js ''100'') [row_sh, row_node, row_other] = Inr [row_node]"
  by (simp add: tree_builder_def tb_scan_def tb_step_def tb_init_def truthy_at_def set_true_def
      scenario_keys js_def object_prototype_keys_def)


section \<open>The tree builder and the transitive closure\<close>

text \<open>
  C1. For every root PID and every row sequence in which the PPID of each row is the
  root PID or the PID of a row that appears earlier (parents before children), the
  single pass hands the completion handler, without error, exactly the rows whose PID is
  a transitive descendant of the root, in the order of the input. Under this ordering
  every row is such a descendant, so the same holds when the root PID is counted among
  its own descendants (the glossary's "zero or more" edges).
\<close>

theorem tree_builder_closure:
  assumes "parents_first root ps"
  shows "tree_builder root ps = Inr (filter (\<lambda>proc. descendant root ps (PID_of proc)) ps) \<and>
         tree_builder root ps =
           Inr (filter (\<lambda>proc. PID_of proc = root \<or> descendant root ps (PID_of proc)) ps)"
proof -
  have "filter (\<lambda>proc. descendant root ps (PID_of proc)) ps = ps"
    using assms by (simp add: parents_first_descendant)
  moreover have "filter (\<lambda>proc. PID_of proc = root \<or> descendant root ps (PID_of proc)) ps = ps"
    using assms by (simp add: parents_first_descendant)
  ultimately show ?thesis
    using assms by (simp add: tree_builder_def parents_first_children)
qed

theorem tree_builder_closure_witness:
  "parents_first (js ''100'') [row_child, row_grandchild] \<and>
   tree_builder (js ''100'') [row_child, row_grandchild] =
     Inr (filter (\<lambda>proc. descendant (js ''100'') [row_child, row_grandchild] (PID_of proc))
            [row_child, row_grandchild])"
proof -
  have h: "parents_first (js ''100'') [row_child, row_grandchild]"
    by (simp add: parents_first_def row_child_keys row_grandchild_keys)
  show ?thesis
    using h tree_builder_closure [OF h] by simp
qed

text \<open>
  C2, as stated: for the rows (PPID 100, PID 200, child), (PPID 200, PID 300,
  grandchild) in that order and root 100 the result would hold the row of PID 200 and
  not the row of PID 300. The code returns both rows: when the second row is scanned,
  200 has just been stored in \<open>parents\<close>.
\<close>

theorem tree_builder_parent_then_grandchild:
  "tree_builder (js ''100'') [row_child, row_grandchild] = Inr [row_child, row_grandchild] \<and>
   PID_of row_grandchild = js ''300''"
  by (simp add: tree_builder_def tb_scan_def tb_step_def tb_init_def truthy_at_def set_true_def
      row_child_keys row_grandchild_keys js_def)

text \<open>
  C2, amended: the single pass misses the grandchild when its row comes before the row
  of its parent. For the same two rows in the order grandchild, child and root 100, the
  result is the row of PID 200 alone.
\<close>

theorem tree_builder_grandchild_then_parent:
  "tree_builder (js ''100'') [row_grandchild, row_child] = Inr [row_child] \<and>
   PID_of row_child = js ''200''"
  by (simp add: tree_builder_def tb_scan_def tb_step_def tb_init_def truthy_at_def set_true_def
      row_child_keys row_grandchild_keys js_def object_prototype_keys_def)

text \<open>
  C4, as stated: the row whose PID is the root PID would never be in the result, even
  when its PPID is the root PID too. The code has no test on the PID of a row: with root
  0, the row of PID 0 and PPID 0 is returned, also by the whole query on the two lines of
  the Windows listing that give this row.
\<close>

theorem tree_builder_returns_self_parented_root:
  "PID_of row_idle = js ''0'' \<and> PPID_of row_idle = js ''0'' \<and>
   tree_builder (js ''0'') [row_idle] = Inr [row_idle] \<and>
   query_result True (js ''0'') [windows_header, windows_idle_line] = Inr [row_idle]"
proof -
  have "tree_builder (js ''0'') [row_idle] = Inr [row_idle]"
    by (simp add: tree_builder_def tb_scan_def tb_step_def tb_init_def truthy_at_def
        set_true_def scenario_keys js_def)
  then show ?thesis
    by (simp add: scenario_keys windows_idle_query)
qed

text \<open>
  C4, amended: seeding \<open>parents\<close> with the root PID adds no row (the result of an empty
  table is empty), and a row whose PID is the root PID is treated as any other row: when
  it is scanned it is appended exactly if its PPID (a decimal string) is the root PID or
  the PID of a row already in the result. So a row whose PID and PPID are both the root
  PID is added.
\<close>

theorem root_row_added_iff:
  assumes "PID_of proc = root" and "is_pid (PPID_of proc)"
  shows "tree_builder root [] = Inr [] \<and>
         tree_builder root (pre @ [proc]) =
           Inr (children (tb_scan root pre) @
                (if PPID_of proc = root \<or> PPID_of proc \<in> PID_of ` set (children (tb_scan root pre))
                 then [proc] else []))"
  using children_snoc_plain [OF is_pid_not_inherited [OF assms(2)], of root pre]
  by (simp add: tree_builder_def tb_scan_Nil tb_init_def)

theorem root_row_added_iff_witness:
  "PID_of row_sh = js ''100'' \<and> is_pid (PPID_of row_sh) \<and>
   tree_builder (js ''100'') ([row_node] @ [row_sh]) = Inr [row_node]"
proof -
  have h1: "PID_of row_sh = js ''100''" and h2: "is_pid (PPID_of row_sh)"
    by (simp_all add: scenario_keys is_pid_literals)
  have c: "children (tb_scan (js ''100'') [row_node]) = [row_node]"
    by (simp add: tb_scan_def tb_step_def tb_init_def truthy_at_def set_true_def
        scenario_keys js_def)
  have ne: "js ''1'' \<noteq> js ''100''" "js ''1'' \<noteq> js ''200''"
    by (simp_all add: js_def)
  show ?thesis
    using h1 h2 root_row_added_iff [OF h1 h2, of "[row_node]"]
    by (simp add: c scenario_keys ne)
qed

text \<open>
  C5. For every sequence of rows (with decimal PPIDs) none of which has a PPID chain that
  reaches the root PID, the completion handler gets no error and the empty list. This
  covers a root PID that occurs nowhere in the table and a root PID that no row names as
  its PPID, by \<open>no_chain_iff\<close>.
\<close>

theorem tree_builder_no_descendants:
  assumes "\<forall>proc\<in>set ps. is_pid (PPID_of proc)"
    and "\<forall>proc\<in>set ps. \<not> chain_reaches root ps proc"
  shows "tree_builder root ps = Inr []"
proof -
  from assms(1) have "\<forall>proc\<in>set ps. PPID_of proc \<notin> set object_prototype_keys"
    by (simp add: is_pid_not_inherited)
  moreover from assms(2) have "\<forall>proc\<in>set ps. PPID_of proc \<noteq> root"
    by (simp add: no_chain_iff)
  ultimately show ?thesis
    by (simp add: tree_builder_def no_child_empty)
qed

theorem tree_builder_no_descendants_witness:
  "list_all (\<lambda>proc. is_pid (PPID_of proc)) [row_sh, row_node, row_other] \<and>
   list_all (\<lambda>proc. \<not> chain_reaches (js ''4242'') [row_sh, row_node, row_other] proc)
     [row_sh, row_node, row_other] \<and>
   tree_builder (js ''4242'') [row_sh, row_node, row_other] = Inr []"
proof -
  have h1: "\<forall>proc\<in>set [row_sh, row_node, row_other]. is_pid (PPID_of proc)"
    by (simp add: scenario_keys is_pid_literals)
  have "\<forall>proc\<in>set [row_sh, row_node, row_other]. PPID_of proc \<noteq> js ''4242''"
    by (simp add: scenario_keys js_def)
  then have h2: "\<forall>proc\<in>set [row_sh, row_node, row_other].
      \<not> chain_reaches (js ''4242'') [row_sh, row_node, row_other] proc"
    by (simp only: no_chain_iff)
  show ?thesis
    using h1 h2 tree_builder_no_descendants [OF h1 h2] by (simp only: list_all_iff simp_thms)
qed

text \<open>
  C10. Invariant of the pass, for a decimal root PID and rows with decimal PID and PPID:
  after any prefix of the rows, the own keys of \<open>parents\<close> are the root PID and the PIDs
  of the rows included so far, and they are still keys after the whole sequence; in the
  result so far every row has as PPID the root PID or the PID of a row earlier in the
  result; and the result so far is a subsequence of the input.
\<close>

theorem tb_scan_invariant:
  assumes "is_pid root"
    and "\<forall>proc\<in>set ps. is_pid (PPID_of proc) \<and> is_pid (PID_of proc)"
    and "prefix pre ps"
  shows "parents (tb_scan root pre) = insert root (PID_of ` set (children (tb_scan root pre))) \<and>
         parents (tb_scan root pre) \<subseteq> parents (tb_scan root ps) \<and>
         parents_first root (children (tb_scan root pre)) \<and>
         subseq (children (tb_scan root pre)) ps"
proof -
  from assms(3) obtain post where ps: "ps = pre @ post" by (auto simp: prefix_def)
  have np: "\<And>k. is_pid k \<Longrightarrow> k \<noteq> js ''__proto__''"
    using is_pid_not_inherited proto_inherited by blast
  from assms(1) have "root \<noteq> js ''__proto__''" by (rule np)
  moreover from assms(2) have "\<forall>proc\<in>set pre. PID_of proc \<noteq> js ''__proto__''"
    unfolding ps using np by auto
  ultimately have a: "parents (tb_scan root pre) =
      insert root (PID_of ` set (children (tb_scan root pre)))"
    by (rule parents_plain)
  have b: "parents (tb_scan root pre) \<subseteq> parents (tb_scan root ps)"
    unfolding ps by (rule parents_grow)
  from assms(2) have "\<forall>proc\<in>set pre. PPID_of proc \<notin> set object_prototype_keys"
    unfolding ps by (simp add: is_pid_not_inherited)
  then have c: "parents_first root (children (tb_scan root pre))"
    by (rule children_parents_first)
  have "subseq (children (tb_scan root pre)) pre" by (rule children_subseq)
  then have d: "subseq (children (tb_scan root pre)) ps"
    unfolding ps by (rule list_emb_prefix)
  from a b c d show ?thesis by simp
qed

theorem tb_scan_invariant_witness:
  "is_pid (js ''100'') \<and>
   list_all (\<lambda>proc. is_pid (PPID_of proc) \<and> is_pid (PID_of proc))
     [row_sh, row_node, row_other] \<and>
   prefix [row_sh, row_node] [row_sh, row_node, row_other] \<and>
   parents (tb_scan (js ''100'') [row_sh, row_node]) =
     insert (js ''100'') (PID_of ` set (children (tb_scan (js ''100'') [row_sh, row_node]))) \<and>
   subseq (children (tb_scan (js ''100'') [row_sh, row_node])) [row_sh, row_node, row_other]"
proof -
  have h1: "is_pid (js ''100'')" by (rule is_pid_literals)
  have h2: "\<forall>proc\<in>set [row_sh, row_node, row_other]. is_pid (PPID_of proc) \<and> is_pid (PID_of proc)"
    by (simp add: scenario_keys is_pid_literals)
  have h3: "prefix [row_sh, row_node] [row_sh, row_node, row_other]" by simp
  show ?thesis
    using h1 h2 h3 tb_scan_invariant [OF h1 h2 h3] by (simp only: list_all_iff simp_thms)
qed

section \<open>The parsers\<close>

text \<open>
  C3. For every line, \<open>parseCsvLine\<close> returns the fields the rule of the
  specification describes (\<open>csv_fields_spec\<close>): a double quote toggles the state
  "inside a quoted field", the line is cut at the commas met outside that state, and the
  double quotes are left out of the fields. So no field contains a double quote, and a
  line of fields written between double quotes and joined by commas is parsed back to
  exactly these fields, whatever commas they contain.
\<close>

theorem parseCsvLine_fields:
  "parseCsvLine line = csv_fields_spec line \<and>
   (\<forall>f\<in>set (parseCsvLine line). 34 \<notin> set f) \<and>
   (fs \<noteq> [] \<and> (\<forall>f\<in>set fs. 34 \<notin> set f) \<longrightarrow> parseCsvLine (csv_join (map quoted fs)) = fs)"
proof -
  have "\<forall>f\<in>set (parseCsvLine line). 34 \<notin> set f"
    unfolding parseCsvLine_spec csv_fields_spec_def using csv_pieces_no_quote by blast
  then show ?thesis
    by (simp add: parseCsvLine_spec [symmetric] parseCsvLine_def csv_loop_join)
qed

theorem parseCsvLine_fields_witness:
  "parseCsvLine (csv_join (map quoted [js ''567'', js ''1234'', [], js ''Widgets, Inc.exe''])) =
     [js ''567'', js ''1234'', [], js ''Widgets, Inc.exe'']"
  using parseCsvLine_fields [of "[]" "[js ''567'', js ''1234'', [], js ''Widgets, Inc.exe'']"]
  by (simp add: js_def)

text \<open>
  C6, as stated: for every data line of the whitespace table, the first two tokens (of
  digits), the third token and the entire remainder, with any whitespace inside it,
  would be captured as PPID, PID, STAT and COMMAND. The line \<open>1 2 S a\<close>, CR, \<open>b\<close>
  has these tokens, and its remainder is \<open>a\<close>, CR, \<open>b\<close>; but \<open>.\<close> does not match
  CR, the pattern does not match the line, and no row is emitted.
\<close>

theorem line_parser_drops_carriage_return:
  "posix_tokens (trim (js ''1 2 S a'' @ 13 # js ''b'')) =
     Some (js ''1'', js ''2'', js ''S'', js ''a'' @ 13 # js ''b'') \<and>
   line_parser False (Some ps_headers) (js ''1 2 S a'' @ 13 # js ''b'') =
     (Some ps_headers, Drop)"
proof -
  let ?line = "js ''1 2 S a'' @ 13 # js ''b''"
  have t: "trim ?line = ?line" by (simp add: trim_def js_def is_space_def)
  have k: "posix_tokens ?line = Some (js ''1'', js ''2'', js ''S'', js ''a'' @ 13 # js ''b'')"
    by (simp add: posix_tokens_def token_def js_def is_space_def is_digit_def)
  have i: "\<not> includes_str ?line (js ''----'')"
    by (simp add: includes_str_def sublist_Cons_right js_def)
  have m: "posix_match ?line = None"
    by (simp add: posix_match_def js_def is_space_def is_digit_def is_dot_def)
  have "line_parser False (Some ps_headers) ?line = (Some ps_headers, Drop)"
    by (simp add: line_parser_def t i m columns_of_def ps_headers_def)
  with k show ?thesis by (simp only: t simp_thms)
qed

text \<open>
  C6, amended: for every line of the whitespace table that is not empty after trimming,
  the pattern captures what \<open>posix_fields\<close> describes: when the first two
  whitespace-separated tokens consist of digits, a third token and a non-empty remainder
  follow, and the remainder holds no line terminator (CR, LS, PS), the columns are the
  two tokens, the third token and the whole remainder, with its internal whitespace and
  unsplit; otherwise the pattern does not match and there are no columns. When the line
  is read after the header \<open>PPID PID STAT COMMAND\<close> and passes the test of line 69
  (it does not contain \<open>----\<close>), the row emitted has these columns as PPID, PID, STAT
  and COMMAND, and no row is emitted when the pattern does not match. What becomes of a
  line that contains \<open>----\<close> is not part of this statement.
\<close>

theorem line_parser_posix_data_line:
  assumes "trim line \<noteq> []"
  shows "columns_of False (trim line) =
           (case posix_fields (trim line) of
              Some (ppid, pid, stat, command) \<Rightarrow> [ppid, pid, stat, command]
            | None \<Rightarrow> []) \<and>
         (\<not> includes_str (trim line) (js ''----'') \<longrightarrow>
          line_parser False (Some ps_headers) line =
            (Some ps_headers,
             case posix_fields (trim line) of
               Some (ppid, pid, stat, command) \<Rightarrow> Emit (mk_row ppid pid stat command)
             | None \<Rightarrow> Drop))"
proof -
  have eq: "posix_match (trim line) = map_option (\<lambda>(a, b, c, d). [a, b, c, d]) (posix_fields (trim line))"
    using assms trim_ends [OF assms] by (rule posix_match_eq_fields)
  show ?thesis
  proof (cases "posix_fields (trim line)")
    case None
    with eq assms show ?thesis
      by (simp add: line_parser_def columns_of_def ps_headers_def)
  next
    case (Some f)
    obtain a b c d where f: "f = (a, b, c, d)" by (cases f) auto
    have "length ps_headers = 4" by (simp add: ps_headers_def)
    with eq assms Some f show ?thesis
      by (simp add: line_parser_def columns_of_def build_row_ps)
  qed
qed

theorem line_parser_posix_data_line_witness:
  "columns_of False (trim (js ''  1234  5678 Ss   my app -x '')) =
     [js ''1234'', js ''5678'', js ''Ss'', js ''my app -x''] \<and>
   line_parser False (Some ps_headers) (js ''  1234  5678 Ss   my app -x '') =
     (Some ps_headers, Emit (mk_row (js ''1234'') (js ''5678'') (js ''Ss'') (js ''my app -x''))) \<and>
   columns_of False (trim (js ''1 2 S a----b'')) = [js ''1'', js ''2'', js ''S'', js ''a----b'']"
proof -
  let ?line = "js ''  1234  5678 Ss   my app -x ''"
  let ?dashes = "js ''1 2 S a----b''"
  have t: "trim ?line = js ''1234  5678 Ss   my app -x''"
    by (simp add: trim_def js_def is_space_def)
  have h1: "trim ?line \<noteq> []" unfolding t by (simp add: js_def)
  have h2: "\<not> includes_str (trim ?line) (js ''----'')"
    unfolding t by (simp add: includes_str_def sublist_Cons_right js_def)
  have f: "posix_fields (trim ?line) = Some (js ''1234'', js ''5678'', js ''Ss'', js ''my app -x'')"
    unfolding t
    by (simp add: posix_fields_def posix_tokens_def token_def js_def is_space_def is_digit_def
        is_dot_def)
  have u: "trim ?dashes = ?dashes"
    by (simp add: trim_def js_def is_space_def)
  have h3: "trim ?dashes \<noteq> []" unfolding u by (simp add: js_def)
  have g: "posix_fields (trim ?dashes) = Some (js ''1'', js ''2'', js ''S'', js ''a----b'')"
    unfolding u
    by (simp add: posix_fields_def posix_tokens_def token_def js_def is_space_def is_digit_def
        is_dot_def)
  show ?thesis
    using line_parser_posix_data_line [OF h1] line_parser_posix_data_line [OF h3] h2
    by (simp add: f g)
qed

text \<open>
  C7. \<open>normalizeHeader\<close> maps Name and COMM to COMMAND, ParentProcessId to PPID,
  ProcessId to PID, Status to STAT, and returns every other string unchanged.
\<close>

theorem normalizeHeader_table:
  "normalizeHeader (js ''Name'') = js ''COMMAND'' \<and>
   normalizeHeader (js ''COMM'') = js ''COMMAND'' \<and>
   normalizeHeader (js ''ParentProcessId'') = js ''PPID'' \<and>
   normalizeHeader (js ''ProcessId'') = js ''PID'' \<and>
   normalizeHeader (js ''Status'') = js ''STAT'' \<and>
   (str \<notin> {js ''Name'', js ''COMM'', js ''ParentProcessId'', js ''ProcessId'', js ''Status''}
      \<longrightarrow> normalizeHeader str = str)"
  by (simp add: normalizeHeader_def js_def)

theorem normalizeHeader_table_witness:
  "js ''PPID'' \<notin> {js ''Name'', js ''COMM'', js ''ParentProcessId'', js ''ProcessId'', js ''Status''} \<and>
   normalizeHeader (js ''PPID'') = js ''PPID''"
  using normalizeHeader_table [of "js ''PPID''"] by (simp add: js_def)

text \<open>
  C8. Whatever lines came before, a malformed line (empty after trimming, containing
  the separator \<open>----\<close>, a line of the whitespace table the pattern does not match, or
  a line with fewer columns than headers) is dropped by the line parser, which leaves
  \<open>headers\<close> as it was and reports no error; the rows of the whole listing, and the
  answer of the query, are those of the listing without that line, and the query ends
  without error.
\<close>

theorem line_parser_drops_malformed:
  assumes "headers = headers_after isWindows None before"
    and "malformed isWindows headers line"
  shows "line_parser isWindows headers line = (headers, Drop) \<and>
         parse_lines isWindows None (before @ line # after) =
           parse_lines isWindows None (before @ after) \<and>
         query_result isWindows pid (before @ line # after) =
           query_result isWindows pid (before @ after) \<and>
         (\<exists>ps. query_result isWindows pid (before @ line # after) = Inr ps)"
proof -
  have inv: "\<forall>hs. headers = Some hs \<longrightarrow> hs \<noteq> []"
    unfolding assms(1) using headers_after_not_Nil by blast
  from assms(2) inv have d: "line_parser isWindows headers line = (headers, Drop)"
    by (rule malformed_Drop)
  then have q: "parse_lines isWindows headers (line # after) = parse_lines isWindows headers after"
    by simp
  have p: "parse_lines isWindows None (before @ line # after) =
      parse_lines isWindows None (before @ after)"
    by (simp only: parse_lines_append [of isWindows None before] assms(1) [symmetric] q)
  obtain ps where "parse_lines isWindows None (before @ after) = Inr ps"
    using parse_lines_Inr by blast
  with d p show ?thesis by (simp add: query_result_def tree_builder_def)
qed

theorem line_parser_drops_malformed_witness:
  "malformed False (headers_after False None [js ''  PPID   PID STAT COMMAND''])
     (js ''watch <defunct>  1914 16964 Z'') \<and>
   parse_lines False None
     ([js ''  PPID   PID STAT COMMAND''] @ js ''watch <defunct>  1914 16964 Z'' # []) =
   parse_lines False None ([js ''  PPID   PID STAT COMMAND''] @ [])"
proof -
  have h: "headers_after False None [js ''  PPID   PID STAT COMMAND''] = Some ps_headers"
    by (simp add: headers_after_def header_lines)
  have m: "malformed False (Some ps_headers) (js ''watch <defunct>  1914 16964 Z'')"
    by (simp add: malformed_def trim_def posix_match_def js_def is_space_def is_digit_def)
  show ?thesis
    using line_parser_drops_malformed [OF h [symmetric] m, of "[]"] m by (simp only: h simp_thms)
qed

section \<open>The public query\<close>

text \<open>
  C9. When \<open>callback\<close> is not a function, \<open>childrenOfPid\<close> throws the error with the
  message \<open>childrenOfPid(pid, callback) expects callback\<close> and has started no
  subprocess; when it is a function, the call throws nothing, whatever \<open>pid\<close> is, and
  starts the process lister.
\<close>

theorem childrenOfPid_callback_check:
  "(typeof callback \<noteq> js ''function'' \<longrightarrow>
      childrenOfPid isWindows pid callback effects =
        (Inl (Error (js ''childrenOfPid(pid, callback) expects callback'')), effects)) \<and>
   (typeof callback = js ''function'' \<longrightarrow>
      (\<exists>pid'. childrenOfPid isWindows pid callback effects =
        (Inr pid', effects @ [processLister isWindows])))"
  by (simp add: childrenOfPid_def)

theorem childrenOfPid_callback_check_witness:
  "typeof JUndefined \<noteq> js ''function'' \<and>
   childrenOfPid False (JNumber (js ''100'')) JUndefined [] =
     (Inl (Error (js ''childrenOfPid(pid, callback) expects callback'')), []) \<and>
   (\<exists>pid'. childrenOfPid False (JNumber (js ''100'')) JFunction [] =
      (Inr pid', [processLister False]))"
  using childrenOfPid_callback_check [where callback = JUndefined and isWindows = False and pid = "JNumber (js ''100'')"
      and effects = "[]"]
    childrenOfPid_callback_check [where callback = JFunction and isWindows = False and pid = "JNumber (js ''100'')"
      and effects = "[]"]
  by (simp add: js_def)

end
